theory Spec2Isabelle
  imports Main "HOL-Library.AList"
begin

section \<open>Values, identity keys and the store\<close>

text \<open>
  The values a caller can pass as \<open>target\<close>. JavaScript treats \<open>undefined\<close>, \<open>null\<close>,
  \<open>false\<close>, \<open>0\<close> and the empty string as falsy, every object as truthy. Numbers are
  integers here (no fractions, no NaN); an object is its identity.
\<close>

datatype jsval = Undefined | Null | Bool bool | Num int | Str string | Obj nat

fun truthy :: "jsval \<Rightarrow> bool" where
  "truthy Undefined = False"
| "truthy Null = False"
| "truthy (Bool b) = b"
| "truthy (Num n) = (n \<noteq> 0)"
| "truthy (Str s) = (s \<noteq> [])"
| "truthy (Obj a) = True"

text \<open>A method is a function object, known by its identity.\<close>

type_synonym meth = nat

text \<open>
  \<open>SC.guidFor\<close> is not among the sources: every operation takes it as the parameter
  \<open>guidFor\<close>. The key of a target is the expression both \<open>add\<close> and \<open>remove\<close> start with:
  \<^verbatim>\<open>(target) ? SC.guidFor(target) : "__this__"\<close>.
\<close>

definition targetGuid :: "(jsval \<Rightarrow> string) \<Rightarrow> jsval \<Rightarrow> string" where
  "targetGuid guidFor target = (if truthy target then guidFor target else ''__this__'')"

text \<open>
  Modelled from the spec: \<open>SC.Set\<close> (set.js is not among the sources). Section 3 of the
  spec describes it as a set of handler references, unique by identity, with no order
  promised. The code reads it through \<open>length\<close> and the slots \<open>value[idx]\<close> for
  \<open>idx < length\<close>, so the model keeps the slots as a list without repetition: \<open>add\<close> on
  a set that has the method changes nothing and otherwise fills the next slot,
  \<open>remove\<close> of a method that is not in the set changes nothing. The fields \<open>target\<close> and
  \<open>isTargetSet\<close> are the two properties that the registry's \<open>add\<close> puts on the set
  object; on a set that never got them they read as \<open>undefined\<close>, which is falsy.
\<close>

record SC_Set =
  items :: "meth list"
  target :: jsval
  isTargetSet :: bool

definition Set_create :: SC_Set where
  "Set_create = \<lparr>items = [], target = Undefined, isTargetSet = False\<rparr>"

definition Set_add :: "meth \<Rightarrow> SC_Set \<Rightarrow> SC_Set" where
  "Set_add m s = (if m \<in> set (items s) then s else s\<lparr>items := items s @ [m]\<rparr>)"

definition Set_remove :: "meth \<Rightarrow> SC_Set \<Rightarrow> SC_Set" where
  "Set_remove m s = s\<lparr>items := removeAll m (items s)\<rparr>"

text \<open>
  Modelled from the spec: \<open>SC.Set.clone\<close> (set.js is not among the sources). Section
  4.2 says that a clone holds its pairs "in a freshly allocated Target-Method Set":
  the copy is a new set with the handlers of the original. \<open>target\<close> and \<open>isTargetSet\<close>
  are no part of \<open>SC.Set\<close>; the registry's \<open>add\<close> puts them on a set object it has
  created, and the registry's \<open>clone\<close> assigns \<open>target\<close> to the copy itself, so the copy
  that \<open>SC.Set.clone\<close> returns does not carry them.
\<close>

definition Set_clone :: "SC_Set \<Rightarrow> SC_Set" where
  "Set_clone s = Set_create\<lparr>items := items s\<rparr>"

text \<open>
  Set objects and the arrays handed out by \<open>getMembers\<close> are mutated in place and can be
  reached from several places, so they live in a store, at addresses; \<open>nextSet\<close> and
  \<open>nextArr\<close> are the addresses the next allocation gets.
\<close>

record store =
  sets :: "nat \<Rightarrow> SC_Set"
  arrays :: "nat \<Rightarrow> (jsval \<times> meth) list"
  nextSet :: nat
  nextArr :: nat

definition emptyStore :: store where
  "emptyStore = \<lparr>sets = (\<lambda>a. Set_create), arrays = (\<lambda>a. []), nextSet = 0, nextArr = 0\<rparr>"

section \<open>The observer set\<close>

text \<open>
  An observer set is an object whose own properties are \<open>targets\<close>,
  \<open>_membersCacheIsValid\<close>, \<open>_members\<close> (absent until \<open>getMembers\<close> runs) and one
  property per target key, holding a set object. \<open>props\<close> lists the last kind, key and
  address, in the order the properties were created, which is the order \<open>for (key in this)\<close>
  visits them. Guids are taken not to collide with the three fixed names or with the
  method names of the prototype.
\<close>

record ObserverSet =
  targets :: int
  membersCacheIsValid :: bool
  members :: "nat option"
  props :: "(string \<times> nat) list"

text \<open>
  \<open>create\<close>, called on \<open>SC._ObserverSet\<close> itself as \<open>clone\<close> does: a new object with no
  property of its own, which inherits \<open>targets: 0\<close> and \<open>_membersCacheIsValid: NO\<close>.
\<close>

definition create :: ObserverSet where
  "create = \<lparr>targets = 0, membersCacheIsValid = False, members = None, props = []\<rparr>"

definition add :: "(jsval \<Rightarrow> string) \<Rightarrow> jsval \<Rightarrow> meth \<Rightarrow> ObserverSet \<times> store \<Rightarrow> ObserverSet \<times> store" where
  "add guidFor tgt meth = (\<lambda>(this, st).
     (let key = targetGuid guidFor tgt in
      case map_of (props this) key of
        None \<Rightarrow>
          (let a = nextSet st;
               methods = Set_create\<lparr>target := tgt, isTargetSet := True\<rparr>;
               this1 = this\<lparr>props := AList.update key a (props this), targets := targets this + 1\<rparr>
           in (this1\<lparr>membersCacheIsValid := False\<rparr>,
               st\<lparr>sets := (sets st)(a := Set_add meth methods), nextSet := Suc a\<rparr>))
      | Some a \<Rightarrow>
          (this\<lparr>membersCacheIsValid := False\<rparr>,
           st\<lparr>sets := (sets st)(a := Set_add meth (sets st a))\<rparr>)))"

definition remove' :: "(jsval \<Rightarrow> string) \<Rightarrow> jsval \<Rightarrow> meth \<Rightarrow> ObserverSet \<times> store \<Rightarrow> bool \<times> ObserverSet \<times> store" where
  "remove' guidFor tgt meth = (\<lambda>(this, st).
     (let key = targetGuid guidFor tgt in
      case map_of (props this) key of
        None \<Rightarrow> (False, this, st)
      | Some a \<Rightarrow>
          (let methods = Set_remove meth (sets st a) in
           if int (length (items methods)) \<le> 0
           then (True,
                 this\<lparr>props := AList.delete key (props this), targets := targets this - 1,
                      membersCacheIsValid := False\<rparr>,
                 st\<lparr>sets := (sets st)(a := methods\<lparr>target := Null, isTargetSet := False\<rparr>)\<rparr>)
           else (True,
                 this\<lparr>membersCacheIsValid := False\<rparr>,
                 st\<lparr>sets := (sets st)(a := methods)\<rparr>))))"

text \<open>The inner loop of \<open>getMembers\<close>: \<^verbatim>\<open>while(--idx>=0) ret.push([target, value[idx]])\<close>.\<close>

fun pushAll :: "jsval \<Rightarrow> meth list \<Rightarrow> nat \<Rightarrow> (jsval \<times> meth) list \<Rightarrow> (jsval \<times> meth) list" where
  "pushAll tgt value 0 ret = ret"
| "pushAll tgt value (Suc idx) ret = pushAll tgt value idx (ret @ [(tgt, value ! idx)])"

text \<open>The outer loop, over the own properties that hold a set marked \<open>isTargetSet\<close>.\<close>

fun collect :: "store \<Rightarrow> (string \<times> nat) list \<Rightarrow> (jsval \<times> meth) list \<Rightarrow> (jsval \<times> meth) list" where
  "collect st [] ret = ret"
| "collect st ((key, a) # rest) ret =
     (let value = sets st a in
      if isTargetSet value
      then collect st rest (pushAll (target value) (items value) (length (items value)) ret)
      else collect st rest ret)"

text \<open>
  \<open>getMembers\<close> returns the array \<open>this._members\<close>, that is an address. A valid cache
  returns it as it is. Otherwise the array is created if the property is absent, or
  emptied in place (\<^verbatim>\<open>this._members.length = 0\<close>), and then filled.
\<close>

definition getMembers :: "ObserverSet \<times> store \<Rightarrow> nat option \<times> ObserverSet \<times> store" where
  "getMembers = (\<lambda>(this, st).
     if membersCacheIsValid this then (members this, this, st)
     else
       (let (ret, this1, st1) =
              (case members this of
                 None \<Rightarrow> (nextArr st, this\<lparr>members := Some (nextArr st)\<rparr>,
                          st\<lparr>arrays := (arrays st)(nextArr st := []), nextArr := Suc (nextArr st)\<rparr>)
               | Some r \<Rightarrow> (r, this, st\<lparr>arrays := (arrays st)(r := [])\<rparr>));
            st2 = st1\<lparr>arrays := (arrays st1)(ret := collect st1 (props this1) (arrays st1 ret))\<rparr>
        in (Some ret, this1\<lparr>membersCacheIsValid := True\<rparr>, st2)))"

text \<open>
  \<open>clone\<close>: every own property that holds a marked set is copied with \<open>SC.Set.clone\<close>
  into a new set object, which gets the \<open>target\<close> of the old one and is stored under
  the same key of the new observer set.
\<close>

fun cloneProps :: "(string \<times> nat) list \<Rightarrow> ObserverSet \<times> store \<Rightarrow> ObserverSet \<times> store" where
  "cloneProps [] (ret, st) = (ret, st)"
| "cloneProps ((key, a) # rest) (ret, st) =
     (let oldSet = sets st a in
      if isTargetSet oldSet
      then (let newSet = (Set_clone oldSet)\<lparr>target := target oldSet\<rparr>;
                b = nextSet st
            in cloneProps rest
                 (ret\<lparr>props := AList.update key b (props ret)\<rparr>,
                  st\<lparr>sets := (sets st)(b := newSet), nextSet := Suc b\<rparr>))
      else cloneProps rest (ret, st))"

definition clone :: "ObserverSet \<times> store \<Rightarrow> ObserverSet \<times> store" where
  "clone = (\<lambda>(this, st).
     (let (ret, st1) = cloneProps (props this) (create, st)
      in (ret\<lparr>targets := targets this, membersCacheIsValid := False\<rparr>, st1)))"

text \<open>What a caller sees when it calls \<open>getMembers\<close> and reads the array it gets.\<close>

definition membersOf :: "ObserverSet \<times> store \<Rightarrow> (jsval \<times> meth) list" where
  "membersOf s = (case getMembers s of
                    (Some r, this1, st1) \<Rightarrow> arrays st1 r
                  | (None, this1, st1) \<Rightarrow> [])"

text \<open>A guid function for the examples: objects get \<open>obj\<close> followed by that many marks.\<close>

fun guidEx :: "jsval \<Rightarrow> string" where
  "guidEx (Obj n) = ''obj'' @ replicate n (CHR ''#'')"
| "guidEx v = ''val''"

section \<open>Sequences of calls\<close>

text \<open>A caller's calls on one observer set, and what a sequence of them leaves behind.\<close>

datatype call = Add jsval meth | Remove jsval meth | GetMembers

fun step :: "(jsval \<Rightarrow> string) \<Rightarrow> call \<Rightarrow> ObserverSet \<times> store \<Rightarrow> ObserverSet \<times> store" where
  "step guidFor (Add tgt m) s = add guidFor tgt m s"
| "step guidFor (Remove tgt m) s = snd (remove' guidFor tgt m s)"
| "step guidFor GetMembers s = snd (getMembers s)"

definition run :: "(jsval \<Rightarrow> string) \<Rightarrow> call list \<Rightarrow> ObserverSet \<times> store \<Rightarrow> ObserverSet \<times> store" where
  "run guidFor calls s = foldl (\<lambda>s c. step guidFor c s) s calls"

section \<open>The mapping behind an observer set\<close>

text \<open>
  The pairs of one stored set, in the order \<open>getMembers\<close> pushes them, and the pairs of
  all the properties of an observer set.
\<close>

definition entryPairs :: "SC_Set \<Rightarrow> (jsval \<times> meth) list" where
  "entryPairs value =
     (if isTargetSet value then map (Pair (target value)) (rev (items value)) else [])"

definition mappingPairs :: "store \<Rightarrow> (string \<times> nat) list \<Rightarrow> (jsval \<times> meth) list" where
  "mappingPairs st ps = concat (map (\<lambda>(key, a). entryPairs (sets st a)) ps)"

text \<open>
  The state that the operations keep up: every property holds an allocated, marked,
  non-empty set of its own, stored under the key of the set's target; \<open>targets\<close>
  counts the properties; a cache that is marked valid holds the pairs of the mapping.
\<close>

definition entryOk :: "(jsval \<Rightarrow> string) \<Rightarrow> store \<Rightarrow> string \<times> nat \<Rightarrow> bool" where
  "entryOk guidFor st = (\<lambda>(key, a).
     a < nextSet st \<and> isTargetSet (sets st a) \<and> items (sets st a) \<noteq> [] \<and>
     distinct (items (sets st a)) \<and> key = targetGuid guidFor (target (sets st a)))"

definition invar :: "(jsval \<Rightarrow> string) \<Rightarrow> ObserverSet \<times> store \<Rightarrow> bool" where
  "invar guidFor = (\<lambda>(this, st).
     distinct (map fst (props this)) \<and> distinct (map snd (props this)) \<and>
     list_all (entryOk guidFor st) (props this) \<and>
     targets this = int (length (props this)) \<and>
     (case members this of
        None \<Rightarrow> \<not> membersCacheIsValid this
      | Some r \<Rightarrow> r < nextArr st \<and>
          (membersCacheIsValid this \<longrightarrow> arrays st r = mappingPairs st (props this))))"

section \<open>String formatting\<close>

text \<open>
  \<open>fmt\<close> in \<open>mixins/string.js\<close>. An argument is \<open>null\<close>, \<open>undefined\<close> or any other value,
  which is kept as the text its \<open>toString()\<close> gives.
\<close>

datatype fmtarg = ArgNull | ArgUndefined | ArgValue string

definition isDigit :: "char \<Rightarrow> bool" where
  "isDigit c = (c \<in> set ''0123456789'')"

definition digitVal :: "char \<Rightarrow> int" where
  "digitVal c = int (of_char c) - 48"

text \<open>
  \<open>parseInt(argIndex, 0)\<close> on a string of digits, read as a decimal numeral (as
  ECMAScript 5 does, also with leading zeros).
\<close>

definition parseInt :: "string \<Rightarrow> int" where
  "parseInt ds = foldl (\<lambda>n c. 10 * n + digitVal c) 0 ds"

text \<open>\<open>args[argIndex]\<close>: an index outside the arguments reads \<open>undefined\<close>.\<close>

definition argAt :: "fmtarg list \<Rightarrow> int \<Rightarrow> fmtarg" where
  "argAt args i = (if 0 \<le> i \<and> i < int (length args) then args ! nat i else ArgUndefined)"

text \<open>\<^verbatim>\<open>((s===null) ? '(null)' : (s==undefined) ? '' : s).toString()\<close>\<close>

definition render :: "fmtarg \<Rightarrow> string" where
  "render s = (case s of ArgNull \<Rightarrow> ''(null)'' | ArgUndefined \<Rightarrow> [] | ArgValue v \<Rightarrow> v)"

text \<open>
  The global replace of \<^verbatim>\<open>/%@([0-9]+)?/g\<close>, from left to right: at \<open>%@\<close> the group takes
  all the digits that follow; the callback uses them if there are any
  (\<^verbatim>\<open>parseInt(argIndex,0)-1\<close>) and otherwise the counter \<open>idx\<close>, which it then advances
  (\<^verbatim>\<open>idx++\<close>). The text that is put in is not scanned again.
\<close>

function fmtFrom :: "int \<Rightarrow> fmtarg list \<Rightarrow> string \<Rightarrow> string" where
  "fmtFrom idx args [] = []"
| "fmtFrom idx args [c] = [c]"
| "fmtFrom idx args (c # d # cs) =
     (if c = CHR ''%'' \<and> d = CHR ''@''
      then (let argIndex = takeWhile isDigit cs; rest = dropWhile isDigit cs in
            if argIndex \<noteq> []
            then render (argAt args (parseInt argIndex - 1)) @ fmtFrom idx args rest
            else render (argAt args idx) @ fmtFrom (idx + 1) args rest)
      else c # fmtFrom idx args (d # cs))"
  by pat_completeness auto
termination
  by (relation "measure (\<lambda>(idx, args, s). length s)")
     (auto simp: le_imp_less_Suc length_dropWhile_le less_SucI)

definition fmt :: "string \<Rightarrow> fmtarg list \<Rightarrow> string" where
  "fmt this args = fmtFrom 0 args this"

text \<open>
  The pairs that are in the mapping: one for each method of each stored set, with the
  target stored on that set. And the methods stored for the key of a target.
\<close>

definition registered :: "ObserverSet \<times> store \<Rightarrow> (jsval \<times> meth) set" where
  "registered = (\<lambda>(this, st).
     (\<Union>(key, a) \<in> set (props this). (\<lambda>m. (target (sets st a), m)) ` set (items (sets st a))))"

definition handlersOf :: "(jsval \<Rightarrow> string) \<Rightarrow> jsval \<Rightarrow> ObserverSet \<times> store \<Rightarrow> meth set" where
  "handlersOf guidFor tgt = (\<lambda>(this, st).
     case map_of (props this) (targetGuid guidFor tgt) of
       None \<Rightarrow> {}
     | Some a \<Rightarrow> set (items (sets st a)))"

text \<open>
  What \<open>clone\<close> makes of one property: the same key, and a new set object that is
  \<open>SC.Set.clone\<close> of the old one with the \<open>target\<close> of the old one.
\<close>

definition copyOf :: "store \<Rightarrow> store \<Rightarrow> string \<times> nat \<Rightarrow> string \<times> nat \<Rightarrow> bool" where
  "copyOf st st' = (\<lambda>(k, a) (k', b). k' = k \<and>
     sets st' b = (Set_clone (sets st a))\<lparr>target := target (sets st a)\<rparr>)"

text \<open>
  The spec's reading of a template, for comparison with \<open>fmt\<close>. A template is a sequence
  of pieces: plain characters, \<open>%@\<close> tokens and \<open>%@N\<close> tokens, a token taking all the
  digits that follow it.
\<close>

datatype piece = Text char | NextArg | NumberedArg nat

function tokens :: "string \<Rightarrow> piece list" where
  "tokens [] = []"
| "tokens [c] = [Text c]"
| "tokens (c # d # cs) =
     (if c = CHR ''%'' \<and> d = CHR ''@''
      then (if takeWhile isDigit cs \<noteq> []
            then NumberedArg (nat (parseInt (takeWhile isDigit cs)))
            else NextArg) # tokens (dropWhile isDigit cs)
      else Text c # tokens (d # cs))"
  by pat_completeness auto
termination
  by (relation "measure length")
     (auto simp: le_imp_less_Suc length_dropWhile_le less_SucI)

text \<open>
  The \<open>n\<close>-th argument, counted from 1, if it was supplied; and how an argument is
  rendered: nothing for a missing one, \<open>(null)\<close> for \<open>null\<close>. (An argument that is
  \<open>undefined\<close> renders like a missing one.)
\<close>

definition nthArg :: "fmtarg list \<Rightarrow> nat \<Rightarrow> fmtarg option" where
  "nthArg args n = (if 1 \<le> n \<and> n \<le> length args then Some (args ! (n - 1)) else None)"

fun shown :: "fmtarg option \<Rightarrow> string" where
  "shown None = []"
| "shown (Some ArgNull) = ''(null)''"
| "shown (Some ArgUndefined) = []"
| "shown (Some (ArgValue v)) = v"

text \<open>
  \<open>formatSpec\<close>: a \<open>%@\<close> token takes the next positional argument, \<open>used\<close> being the
  number of \<open>%@\<close> tokens already replaced; a \<open>%@N\<close> token takes the \<open>N\<close>-th argument.
\<close>

fun formatSpec :: "nat \<Rightarrow> fmtarg list \<Rightarrow> piece list \<Rightarrow> string" where
  "formatSpec used args [] = []"
| "formatSpec used args (Text c # ps) = c # formatSpec used args ps"
| "formatSpec used args (NextArg # ps) = shown (nthArg args (used + 1)) @ formatSpec (used + 1) args ps"
| "formatSpec used args (NumberedArg n # ps) = shown (nthArg args n) @ formatSpec used args ps"

section \<open>Reading the members\<close>

lemma pushAll_eq:
  "n \<le> length v \<Longrightarrow> pushAll t v n ret = ret @ map (Pair t) (rev (take n v))"
proof (induction n arbitrary: ret)
  case 0
  then show ?case by simp
next
  case (Suc n)
  then have "take (Suc n) v = take n v @ [v ! n]"
    by (simp add: take_Suc_conv_app_nth)
  with Suc show ?case by simp
qed

lemma collect_eq: "collect st ps ret = ret @ mappingPairs st ps"
  by (induction ps arbitrary: ret)
     (auto simp: mappingPairs_def entryPairs_def pushAll_eq Let_def)

lemma mappingPairs_cong:
  "(\<And>a. a \<in> snd ` set ps \<Longrightarrow> sets st' a = sets st a) \<Longrightarrow> mappingPairs st' ps = mappingPairs st ps"
  by (induction ps) (auto simp: mappingPairs_def)

lemma membersOf_eq:
  "membersOf (this, st) =
     (if membersCacheIsValid this
      then (case members this of None \<Rightarrow> [] | Some r \<Rightarrow> arrays st r)
      else mappingPairs st (props this))"
proof -
  have s: "mappingPairs (st\<lparr>arrays := f, nextArr := n\<rparr>) ps = mappingPairs st ps"
          "mappingPairs (st\<lparr>arrays := f\<rparr>) ps = mappingPairs st ps" for f n ps
    by (simp_all add: mappingPairs_def)
  show ?thesis
    by (auto simp: membersOf_def getMembers_def collect_eq s split: option.splits)
qed

lemma membersOf_invar:
  "invar g (this, st) \<Longrightarrow> membersOf (this, st) = mappingPairs st (props this)"
  by (auto simp: membersOf_eq invar_def split: option.splits)

lemma update_fresh: "k \<notin> fst ` set al \<Longrightarrow> AList.update k v al = al @ [(k, v)]"
  by (induction al) auto

lemma add_None:
  "map_of (props this) (targetGuid g t) = None \<Longrightarrow>
   add g t m (this, st) =
     (this\<lparr>props := props this @ [(targetGuid g t, nextSet st)], targets := targets this + 1,
           membersCacheIsValid := False\<rparr>,
      st\<lparr>sets := (sets st)(nextSet st := \<lparr>items = [m], target = t, isTargetSet = True\<rparr>),
         nextSet := Suc (nextSet st)\<rparr>)"
proof -
  assume n: "map_of (props this) (targetGuid g t) = None"
  then have "targetGuid g t \<notin> fst ` set (props this)"
    by (simp add: map_of_eq_None_iff)
  then have "AList.update (targetGuid g t) (nextSet st) (props this) = props this @ [(targetGuid g t, nextSet st)]"
    by (rule update_fresh)
  then show ?thesis
    unfolding add_def by (simp add: n Let_def Set_add_def Set_create_def)
qed

lemma add_Some:
  "map_of (props this) (targetGuid g t) = Some a \<Longrightarrow>
   add g t m (this, st) =
     (this\<lparr>membersCacheIsValid := False\<rparr>,
      st\<lparr>sets := (sets st)(a := Set_add m (sets st a))\<rparr>)"
  by (simp add: add_def Let_def)

lemma entry_unique:
  "distinct (map snd ps) \<Longrightarrow> (k, a) \<in> set ps \<Longrightarrow> (k', a) \<in> set ps \<Longrightarrow> k = k'"
  by (metis distinct_map inj_on_def prod.inject snd_conv)

lemma entryOk_frame:
  "entryOk g st e \<Longrightarrow> sets st' (snd e) = sets st (snd e) \<Longrightarrow> nextSet st \<le> nextSet st' \<Longrightarrow> entryOk g st' e"
  by (cases e) (auto simp: entryOk_def)

lemma list_all_entryOk_frame:
  "list_all (entryOk g st) ps \<Longrightarrow> (\<And>a. a \<in> snd ` set ps \<Longrightarrow> sets st' a = sets st a) \<Longrightarrow>
   nextSet st \<le> nextSet st' \<Longrightarrow> list_all (entryOk g st') ps"
  unfolding list_all_iff
proof
  fix e
  assume a: "\<forall>x\<in>set ps. entryOk g st x" "\<And>a. a \<in> snd ` set ps \<Longrightarrow> sets st' a = sets st a"
            "nextSet st \<le> nextSet st'" and e: "e \<in> set ps"
  from e have "snd e \<in> snd ` set ps" by (rule imageI)
  with a e show "entryOk g st' e" by (intro entryOk_frame[of g st e st']) auto
qed

lemma entries_below:
  "list_all (entryOk g st) ps \<Longrightarrow> a \<in> snd ` set ps \<Longrightarrow> a < nextSet st"
  unfolding list_all_iff by (auto simp: entryOk_def)

lemma invar_add: "invar g s \<Longrightarrow> invar g (add g t m s)"
proof (cases s)
  case (Pair this st)
  assume inv: "invar g s"
  show ?thesis
  proof (cases "map_of (props this) (targetGuid g t)")
    case None
    let ?st' = "st\<lparr>sets := (sets st)(nextSet st := \<lparr>items = [m], target = t, isTargetSet = True\<rparr>),
         nextSet := Suc (nextSet st)\<rparr>"
    from inv Pair have all: "list_all (entryOk g st) (props this)" by (simp add: invar_def)
    have fresh: "nextSet st \<notin> snd ` set (props this)"
      using entries_below[OF all] by blast
    have "list_all (entryOk g ?st') (props this)"
    proof (rule list_all_entryOk_frame[OF all])
      fix a assume "a \<in> snd ` set (props this)"
      with fresh have "a \<noteq> nextSet st" by blast
      then show "sets ?st' a = sets st a" by simp
    qed simp
    moreover have "entryOk g ?st' (targetGuid g t, nextSet st)"
      by (simp add: entryOk_def)
    moreover have "targetGuid g t \<notin> fst ` set (props this)"
      using None by (simp add: map_of_eq_None_iff)
    ultimately have
      "distinct (map fst (props this @ [(targetGuid g t, nextSet st)]))"
      "distinct (map snd (props this @ [(targetGuid g t, nextSet st)]))"
      "list_all (entryOk g ?st') (props this @ [(targetGuid g t, nextSet st)])"
      using inv Pair fresh by (simp_all add: invar_def)
    moreover have "targets this + 1 = int (length (props this @ [(targetGuid g t, nextSet st)]))"
      using inv Pair by (simp add: invar_def)
    moreover have "case members this of None \<Rightarrow> True | Some r \<Rightarrow> r < nextArr st"
      using inv Pair by (simp add: invar_def split: option.splits)
    ultimately show ?thesis
      unfolding Pair add_None[OF None] invar_def
      by (simp split: option.splits)
  next
    case (Some a)
    let ?st' = "st\<lparr>sets := (sets st)(a := Set_add m (sets st a))\<rparr>"
    from inv Pair have all: "list_all (entryOk g st) (props this)"
      and da: "distinct (map snd (props this))" by (simp_all add: invar_def)
    have mem: "(targetGuid g t, a) \<in> set (props this)"
      using Some by (rule map_of_SomeD)
    have "entryOk g ?st' e" if "e \<in> set (props this)" for e
    proof (cases e)
      case (Pair k b)
      have ok: "entryOk g st (k, b)" using all that Pair by (simp add: list_all_iff)
      show ?thesis
      proof (cases "b = a")
        case True
        then show ?thesis using ok Pair by (auto simp: entryOk_def Set_add_def)
      next
        case False
        then show ?thesis using ok Pair by (auto simp: entryOk_def)
      qed
    qed
    then have "list_all (entryOk g ?st') (props this)" by (simp add: list_all_iff)
    moreover have "case members this of None \<Rightarrow> True | Some r \<Rightarrow> r < nextArr st"
      using inv Pair by (simp add: invar_def split: option.splits)
    ultimately show ?thesis
      using inv unfolding Pair add_Some[OF Some] invar_def
      by (simp split: option.splits)
  qed
qed

section \<open>The state that is kept up\<close>

lemma mappingPairs_arrays [simp]:
  "mappingPairs (st\<lparr>arrays := f\<rparr>) ps = mappingPairs st ps"
  "mappingPairs (st\<lparr>arrays := f, nextArr := n\<rparr>) ps = mappingPairs st ps"
  by (simp_all add: mappingPairs_def)

lemma entryOk_arrays [simp]:
  "entryOk g (st\<lparr>arrays := f\<rparr>) = entryOk g st"
  "entryOk g (st\<lparr>arrays := f, nextArr := n\<rparr>) = entryOk g st"
  by (simp_all add: entryOk_def)

lemma getMembers_valid:
  "membersCacheIsValid this \<Longrightarrow> getMembers (this, st) = (members this, this, st)"
  by (simp add: getMembers_def)

lemma getMembers_None:
  "\<not> membersCacheIsValid this \<Longrightarrow> members this = None \<Longrightarrow>
   getMembers (this, st) =
     (Some (nextArr st),
      this\<lparr>members := Some (nextArr st), membersCacheIsValid := True\<rparr>,
      st\<lparr>arrays := (arrays st)(nextArr st := mappingPairs st (props this)),
         nextArr := Suc (nextArr st)\<rparr>)"
  by (simp add: getMembers_def collect_eq)

lemma getMembers_Some:
  "\<not> membersCacheIsValid this \<Longrightarrow> members this = Some r \<Longrightarrow>
   getMembers (this, st) =
     (Some r, this\<lparr>membersCacheIsValid := True\<rparr>,
      st\<lparr>arrays := (arrays st)(r := mappingPairs st (props this))\<rparr>)"
  by (simp add: getMembers_def collect_eq)

lemma invar_getMembers: "invar g s \<Longrightarrow> invar g (snd (getMembers s))"
proof (cases s)
  case (Pair this st)
  assume inv: "invar g s"
  show ?thesis
  proof (cases "membersCacheIsValid this")
    case True
    then show ?thesis using inv Pair by (simp add: getMembers_valid)
  next
    case False
    show ?thesis
    proof (cases "members this")
      case None
      show ?thesis
        using inv unfolding Pair getMembers_None[OF False None] invar_def
        by simp
    next
      case (Some r)
      show ?thesis
        using inv unfolding Pair getMembers_Some[OF False Some] invar_def
        by (simp add: Some)
    qed
  qed
qed

lemma remove_None:
  "map_of (props this) (targetGuid g t) = None \<Longrightarrow> remove' g t m (this, st) = (False, this, st)"
  by (simp add: remove'_def)

lemma remove_Some:
  "map_of (props this) (targetGuid g t) = Some a \<Longrightarrow>
   remove' g t m (this, st) =
     (if removeAll m (items (sets st a)) = []
      then (True,
            this\<lparr>props := AList.delete (targetGuid g t) (props this), targets := targets this - 1,
                 membersCacheIsValid := False\<rparr>,
            st\<lparr>sets := (sets st)(a := (Set_remove m (sets st a))\<lparr>target := Null, isTargetSet := False\<rparr>)\<rparr>)
      else (True, this\<lparr>membersCacheIsValid := False\<rparr>,
            st\<lparr>sets := (sets st)(a := Set_remove m (sets st a))\<rparr>))"
  by (simp add: remove'_def Let_def Set_remove_def)

lemma length_delete:
  "distinct (map fst ps) \<Longrightarrow> (k, v) \<in> set ps \<Longrightarrow> Suc (length (AList.delete k ps)) = length ps"
proof (induction ps)
  case Nil
  then show ?case by simp
next
  case (Cons p ps)
  show ?case
  proof (cases "fst p = k")
    case True
    with Cons.prems have "k \<notin> fst ` set ps" by auto
    then have "AList.delete k ps = ps" by simp
    with True show ?thesis by (cases p) (simp add: AList.delete_eq)
  next
    case False
    with Cons show ?thesis by (cases p) (auto simp: AList.delete_eq)
  qed
qed

lemma distinct_snd_delete:
  "distinct (map snd ps) \<Longrightarrow> distinct (map snd (AList.delete k ps))"
  by (simp add: AList.delete_eq distinct_map_filter)

lemma set_delete: "set (AList.delete k ps) = {e \<in> set ps. fst e \<noteq> k}"
  by (auto simp: AList.delete_eq)

lemma invar_remove: "invar g s \<Longrightarrow> invar g (snd (remove' g t m s))"
proof (cases s)
  case (Pair this st)
  assume inv: "invar g s"
  show ?thesis
  proof (cases "map_of (props this) (targetGuid g t)")
    case None
    then show ?thesis using inv Pair by (simp add: remove_None)
  next
    case (Some a)
    from inv Pair have all: "list_all (entryOk g st) (props this)"
      and da: "distinct (map snd (props this))"
      and dk: "distinct (map fst (props this))"
      and tg: "targets this = int (length (props this))"
      by (simp_all add: invar_def)
    have mem: "(targetGuid g t, a) \<in> set (props this)"
      using Some by (rule map_of_SomeD)
    have bound: "case members this of None \<Rightarrow> True | Some r \<Rightarrow> r < nextArr st"
      using inv Pair by (simp add: invar_def split: option.splits)
    show ?thesis
    proof (cases "removeAll m (items (sets st a)) = []")
      case True
      let ?st' = "st\<lparr>sets := (sets st)(a := (Set_remove m (sets st a))\<lparr>target := Null, isTargetSet := False\<rparr>)\<rparr>"
      let ?ps' = "AList.delete (targetGuid g t) (props this)"
      have "entryOk g ?st' e" if "e \<in> set ?ps'" for e
      proof (cases e)
        case (Pair k b)
        with that have in_ps: "(k, b) \<in> set (props this)" and ne: "k \<noteq> targetGuid g t"
          by (auto simp: set_delete)
        have "b \<noteq> a" using entry_unique[OF da in_ps] mem ne by blast
        moreover have "entryOk g st (k, b)" using all in_ps by (simp add: list_all_iff)
        ultimately show ?thesis using Pair by (simp add: entryOk_def)
      qed
      then have 1: "list_all (entryOk g ?st') ?ps'" by (simp add: list_all_iff)
      have 2: "targets this - 1 = int (length ?ps')"
        using length_delete[OF dk mem] tg by simp
      show ?thesis
        using 1 2 bound distinct_delete[OF dk] distinct_snd_delete[OF da]
        unfolding Pair remove_Some[OF Some] invar_def
        by (simp add: True split: option.splits)
    next
      case False
      let ?st' = "st\<lparr>sets := (sets st)(a := Set_remove m (sets st a))\<rparr>"
      have "entryOk g ?st' e" if "e \<in> set (props this)" for e
      proof (cases e)
        case (Pair k b)
        have ok: "entryOk g st (k, b)" using all that Pair by (simp add: list_all_iff)
        show ?thesis
        proof (cases "b = a")
          case True
          then show ?thesis using ok Pair False by (simp add: entryOk_def Set_remove_def distinct_removeAll)
        next
          case False
          then show ?thesis using ok Pair by (simp add: entryOk_def)
        qed
      qed
      then have 1: "list_all (entryOk g ?st') (props this)" by (simp add: list_all_iff)
      show ?thesis
        using 1 bound dk da tg
        unfolding Pair remove_Some[OF Some] invar_def
        by (simp add: False split: option.splits)
    qed
  qed
qed

lemma invar_step: "invar g s \<Longrightarrow> invar g (step g c s)"
  by (cases c) (simp_all add: invar_add invar_remove invar_getMembers)

lemma invar_run: "invar g s \<Longrightarrow> invar g (run g cs s)"
  unfolding run_def by (induction cs arbitrary: s) (simp_all add: invar_step)

lemma invar_create: "invar g (create, st)"
  by (simp add: invar_def create_def)

text \<open>The definitions that the examples unfold.\<close>

lemmas ev = run_def add_def remove'_def create_def emptyStore_def targetGuid_def Set_create_def Set_add_def Set_remove_def
  membersOf_def getMembers_def Let_def eval_nat_numeral

section \<open>Removing a method that was never added\<close>

text \<open>
  C1. \<open>remove\<close> is documented to return \<open>YES\<close> if the item was removed and \<open>NO\<close> if it was
  not found. Here the target \<open>Obj 1\<close> has the method 1 and \<open>remove\<close> is called with the
  method 2, which was never added: the members are what they were, yet the answer is
  \<open>YES\<close>, because \<open>remove\<close> answers \<open>NO\<close> only when the target has no set at all.
\<close>

theorem remove_unknown_method_returns_yes:
  "fst (remove' guidEx (Obj 1) 2 (add guidEx (Obj 1) 1 (create, emptyStore))) = True \<and>
   membersOf (add guidEx (Obj 1) 1 (create, emptyStore)) = [(Obj 1, 1)] \<and>
   membersOf (snd (remove' guidEx (Obj 1) 2 (add guidEx (Obj 1) 1 (create, emptyStore)))) = [(Obj 1, 1)]"
  by (simp add: add_def remove'_def create_def emptyStore_def targetGuid_def Set_create_def
      Set_add_def Set_remove_def membersOf_def getMembers_def Let_def)

lemma entryOk_D:
  "list_all (entryOk g st) ps \<Longrightarrow> (k, a) \<in> set ps \<Longrightarrow>
   a < nextSet st \<and> isTargetSet (sets st a) \<and> items (sets st a) \<noteq> [] \<and>
   distinct (items (sets st a)) \<and> k = targetGuid g (target (sets st a))"
  by (auto simp: list_all_iff entryOk_def)

lemma set_mappingPairs:
  "list_all (entryOk g st) ps \<Longrightarrow>
   set (mappingPairs st ps) =
     (\<Union>(key, a) \<in> set ps. (\<lambda>m. (target (sets st a), m)) ` set (items (sets st a)))"
  by (induction ps) (auto simp: mappingPairs_def entryPairs_def entryOk_def)

lemma fst_mappingPairs:
  "list_all (entryOk g st) ps \<Longrightarrow>
   fst ` set (mappingPairs st ps) = (\<lambda>(key, a). target (sets st a)) ` set ps"
proof (induction ps)
  case Nil
  then show ?case by (simp add: mappingPairs_def)
next
  case (Cons p ps)
  obtain k a where p: "p = (k, a)" by (cases p)
  from Cons.prems p have ne: "items (sets st a) \<noteq> []" and fl: "isTargetSet (sets st a)"
    by (simp_all add: entryOk_def)
  have "fst ` set (entryPairs (sets st a)) = {target (sets st a)}"
    using ne fl by (cases "items (sets st a)") (auto simp: entryPairs_def)
  moreover have "mappingPairs st (p # ps) = entryPairs (sets st a) @ mappingPairs st ps"
    by (simp add: mappingPairs_def p)
  ultimately show ?case using Cons p by (simp add: image_Un)
qed

lemma target_inj:
  assumes all: "list_all (entryOk g st) ps" and dk: "distinct (map fst ps)"
  shows "inj_on (\<lambda>(key, a). target (sets st a)) (set ps)"
proof (rule inj_onI)
  fix x y
  assume x: "x \<in> set ps" and y: "y \<in> set ps"
    and eq: "(case x of (key, a) \<Rightarrow> target (sets st a)) = (case y of (key, a) \<Rightarrow> target (sets st a))"
  obtain k a where xe: "x = (k, a)" by (cases x)
  obtain k' b where ye: "y = (k', b)" by (cases y)
  from entryOk_D[OF all] x xe have "k = targetGuid g (target (sets st a))" by blast
  moreover from entryOk_D[OF all] y ye have "k' = targetGuid g (target (sets st b))" by blast
  ultimately have "k = k'" using eq xe ye by simp
  with dk x y xe ye have "a = b" by (metis eq_key_imp_eq_value)
  with \<open>k = k'\<close> xe ye show "x = y" by simp
qed

lemma card_owners:
  assumes all: "list_all (entryOk g st) ps" and dk: "distinct (map fst ps)"
  shows "card (fst ` set (mappingPairs st ps)) = length ps"
proof -
  have "card (fst ` set (mappingPairs st ps)) = card (set ps)"
    unfolding fst_mappingPairs[OF all] by (rule card_image[OF target_inj[OF all dk]])
  also have "\<dots> = length ps" using dk by (simp add: distinct_card distinct_map)
  finally show ?thesis .
qed

lemma card_keys: "distinct (map fst ps) \<Longrightarrow> card (dom (map_of ps)) = length ps"
  by (metis distinct_card dom_map_of_conv_image_fst length_map list.set_map)

section \<open>The count of targets\<close>

text \<open>
  C3. After any sequence of calls on a new observer set, \<open>targets\<close> is the number of keys
  that have a set, which is the number of distinct targets that \<open>getMembers\<close> reports,
  and no stored set is empty.
\<close>

theorem targets_counts_owners:
  "case run guidFor calls (create, st0) of (this, st) \<Rightarrow>
     targets this = int (card (dom (map_of (props this)))) \<and>
     targets this = int (card (fst ` set (membersOf (this, st)))) \<and>
     list_all (\<lambda>(key, a). items (sets st a) \<noteq> []) (props this)"
proof -
  obtain this st where r: "run guidFor calls (create, st0) = (this, st)"
    by (cases "run guidFor calls (create, st0)")
  have inv: "invar guidFor (this, st)"
    using invar_run[OF invar_create, of guidFor calls st0] r by simp
  then have all: "list_all (entryOk guidFor st) (props this)"
    and dk: "distinct (map fst (props this))"
    and tg: "targets this = int (length (props this))"
    by (simp_all add: invar_def)
  have "list_all (\<lambda>(key, a). items (sets st a) \<noteq> []) (props this)"
    using all by (auto simp: list_all_iff entryOk_def)
  then show ?thesis
    using tg card_keys[OF dk] card_owners[OF all dk] membersOf_invar[OF inv] r by simp
qed

text \<open>For instance, after two targets were added and one of them removed again:\<close>

theorem targets_counts_owners_witness:
  "targets (fst (run guidEx [Add (Obj 1) 1, Add Null 3, Add (Obj 1) 2, Remove Null 3] (create, emptyStore))) = 1 \<and>
   (case run guidEx [Add (Obj 1) 1, Add Null 3, Add (Obj 1) 2, Remove Null 3] (create, emptyStore) of
      (this, st) \<Rightarrow>
        targets this = int (card (dom (map_of (props this)))) \<and>
        targets this = int (card (fst ` set (membersOf (this, st)))) \<and>
        list_all (\<lambda>(key, a). items (sets st a) \<noteq> []) (props this))"
proof -
  have "targets (fst (run guidEx [Add (Obj 1) 1, Add Null 3, Add (Obj 1) 2, Remove Null 3] (create, emptyStore))) = 1"
    by (simp add: ev)
  then show ?thesis
    using targets_counts_owners[of guidEx "[Add (Obj 1) 1, Add Null 3, Add (Obj 1) 2, Remove Null 3]" emptyStore]
    by simp
qed

lemma distinct_entryPairs: "distinct (items s) \<Longrightarrow> distinct (entryPairs s)"
  by (simp add: entryPairs_def distinct_map inj_on_def)

lemma distinct_mappingPairs:
  assumes all: "list_all (entryOk g st) ps" and dk: "distinct (map fst ps)"
  shows "distinct (mappingPairs st ps)"
  using assms
proof (induction ps)
  case Nil
  then show ?case by (simp add: mappingPairs_def)
next
  case (Cons p ps)
  obtain k a where p: "p = (k, a)" by (cases p)
  from Cons.prems p have ok: "entryOk g st (k, a)" and all': "list_all (entryOk g st) ps"
    and dk': "distinct (map fst ps)" and knew: "k \<notin> fst ` set ps"
    by simp_all
  have split: "mappingPairs st (p # ps) = entryPairs (sets st a) @ mappingPairs st ps"
    by (simp add: mappingPairs_def p)
  have "set (entryPairs (sets st a)) \<inter> set (mappingPairs st ps) = {}"
  proof (rule ccontr)
    assume "set (entryPairs (sets st a)) \<inter> set (mappingPairs st ps) \<noteq> {}"
    then obtain t m where 1: "(t, m) \<in> set (entryPairs (sets st a))"
      and 2: "(t, m) \<in> set (mappingPairs st ps)" by auto
    from 1 have t: "t = target (sets st a)" by (auto simp: entryPairs_def split: if_splits)
    from 2 have "t \<in> fst ` set (mappingPairs st ps)" by force
    then obtain k' b where in_ps: "(k', b) \<in> set ps" and t': "t = target (sets st b)"
      unfolding fst_mappingPairs[OF all'] by auto
    from entryOk_D[OF all' in_ps] have "k' = targetGuid g (target (sets st b))" by simp
    moreover from ok have "k = targetGuid g (target (sets st a))" by (simp add: entryOk_def)
    ultimately have "k = k'" using t t' by simp
    with in_ps knew show False by force
  qed
  moreover have "distinct (entryPairs (sets st a))"
    using ok by (intro distinct_entryPairs) (simp add: entryOk_def)
  ultimately show ?case
    using Cons.IH[OF all' dk'] split by simp
qed

section \<open>The members and the cache\<close>

text \<open>
  C4. After any sequence of \<open>add\<close>, \<open>remove\<close> and \<open>getMembers\<close> calls on a new observer
  set, \<open>getMembers\<close> gives exactly the pairs of the mapping, each once, however often it
  was called before; and when the cache is marked valid, the cached array holds
  exactly these pairs.
\<close>

theorem members_reflect_mapping:
  "case run guidFor calls (create, st0) of (this, st) \<Rightarrow>
     set (membersOf (this, st)) = registered (this, st) \<and>
     distinct (membersOf (this, st)) \<and>
     (membersCacheIsValid this \<longrightarrow>
        (\<exists>r. members this = Some r \<and> set (arrays st r) = registered (this, st) \<and>
             arrays st r = membersOf (this, st)))"
proof -
  obtain this st where r: "run guidFor calls (create, st0) = (this, st)"
    by (cases "run guidFor calls (create, st0)")
  have inv: "invar guidFor (this, st)"
    using invar_run[OF invar_create, of guidFor calls st0] r by simp
  then have all: "list_all (entryOk guidFor st) (props this)"
    and dk: "distinct (map fst (props this))"
    by (simp_all add: invar_def)
  have m: "membersOf (this, st) = mappingPairs st (props this)"
    by (rule membersOf_invar[OF inv])
  have s: "set (mappingPairs st (props this)) = registered (this, st)"
    using set_mappingPairs[OF all] by (simp add: registered_def)
  have c: "membersCacheIsValid this \<longrightarrow>
        (\<exists>r. members this = Some r \<and> arrays st r = mappingPairs st (props this))"
    using inv by (auto simp: invar_def split: option.splits)
  show ?thesis
    using m s c distinct_mappingPairs[OF all dk] r by auto
qed
text \<open>For instance, when the last call was \<open>getMembers\<close>, so that the cache is valid:\<close>

theorem members_reflect_mapping_witness:
  "membersCacheIsValid (fst (run guidEx [Add (Obj 1) 1, GetMembers, Add (Obj 2) 5, GetMembers] (create, emptyStore))) \<and>
   (case run guidEx [Add (Obj 1) 1, GetMembers, Add (Obj 2) 5, GetMembers] (create, emptyStore) of
      (this, st) \<Rightarrow>
        set (membersOf (this, st)) = registered (this, st) \<and>
        distinct (membersOf (this, st)) \<and>
        (\<exists>r. members this = Some r \<and> set (arrays st r) = registered (this, st) \<and>
             arrays st r = membersOf (this, st)))"
proof -
  have v: "membersCacheIsValid (fst (run guidEx [Add (Obj 1) 1, GetMembers, Add (Obj 2) 5, GetMembers] (create, emptyStore)))"
    by (simp add: ev)
  then show ?thesis
    using members_reflect_mapping[of guidEx "[Add (Obj 1) 1, GetMembers, Add (Obj 2) 5, GetMembers]" emptyStore]
    by (simp add: case_prod_unfold)
qed

lemma map_of_append_fresh: "k \<notin> fst ` set ps \<Longrightarrow> map_of (ps @ [(k, v)]) k = Some v"
  by (induction ps) auto

lemma add_twice: "add g t m (add g t m s) = add g t m s"
proof (cases s)
  case (Pair this st)
  show ?thesis
  proof (cases "map_of (props this) (targetGuid g t)")
    case None
    let ?this' = "this\<lparr>props := props this @ [(targetGuid g t, nextSet st)], targets := targets this + 1,
           membersCacheIsValid := False\<rparr>"
    let ?st' = "st\<lparr>sets := (sets st)(nextSet st := \<lparr>items = [m], target = t, isTargetSet = True\<rparr>),
         nextSet := Suc (nextSet st)\<rparr>"
    have "targetGuid g t \<notin> fst ` set (props this)"
      using None by (simp add: map_of_eq_None_iff)
    then have "map_of (props ?this') (targetGuid g t) = Some (nextSet st)"
      by (simp del: map_of_append add: map_of_append_fresh)
    from add_Some[OF this, of m ?st'] show ?thesis
      unfolding Pair add_None[OF None] by (simp add: Set_add_def)
  next
    case (Some a)
    let ?this' = "this\<lparr>membersCacheIsValid := False\<rparr>"
    let ?st' = "st\<lparr>sets := (sets st)(a := Set_add m (sets st a))\<rparr>"
    have "map_of (props ?this') (targetGuid g t) = Some a" using Some by simp
    from add_Some[OF this, of m ?st'] show ?thesis
      unfolding Pair add_Some[OF Some] by (simp add: Set_add_def)
  qed
qed

section \<open>Adding twice, adding and removing\<close>

text \<open>
  C6. \<open>add\<close> is idempotent: in every state, a second \<open>add\<close> of the same target and
  method leaves the observer set and the store as the first one left them, so
  \<open>getMembers\<close> and \<open>targets\<close> are the same.
\<close>

theorem add_idempotent:
  "add guidFor tgt m (add guidFor tgt m s) = add guidFor tgt m s \<and>
   membersOf (add guidFor tgt m (add guidFor tgt m s)) = membersOf (add guidFor tgt m s) \<and>
   targets (fst (add guidFor tgt m (add guidFor tgt m s))) = targets (fst (add guidFor tgt m s))"
  by (simp add: add_twice)

lemma delete_append_fresh:
  "k \<notin> fst ` set ps \<Longrightarrow> AList.delete k (ps @ [(k, v)]) = ps"
  by (induction ps) auto

lemma add_then_remove_aux:
  assumes inv: "invar guidFor (this, st)"
    and absent: "m \<notin> handlersOf guidFor tgt (this, st)"
  shows "remove' guidFor tgt m (add guidFor tgt m (this, st)) =
           (True, snd (remove' guidFor tgt m (add guidFor tgt m (this, st)))) \<and>
         membersOf (snd (remove' guidFor tgt m (add guidFor tgt m (this, st)))) = membersOf (this, st) \<and>
         targets (fst (snd (remove' guidFor tgt m (add guidFor tgt m (this, st))))) = targets this \<and>
         props (fst (snd (remove' guidFor tgt m (add guidFor tgt m (this, st))))) = props this"
proof (cases "map_of (props this) (targetGuid guidFor tgt)")
  case None
  let ?k = "targetGuid guidFor tgt"
  let ?this' = "this\<lparr>props := props this @ [(?k, nextSet st)], targets := targets this + 1,
           membersCacheIsValid := False\<rparr>"
  let ?st' = "st\<lparr>sets := (sets st)(nextSet st := \<lparr>items = [m], target = tgt, isTargetSet = True\<rparr>),
         nextSet := Suc (nextSet st)\<rparr>"
  let ?st2 = "?st'\<lparr>sets := (sets ?st')(nextSet st :=
        (Set_remove m (sets ?st' (nextSet st)))\<lparr>target := Null, isTargetSet := False\<rparr>)\<rparr>"
  have nk: "?k \<notin> fst ` set (props this)"
    using None by (simp add: map_of_eq_None_iff)
  then have look: "map_of (props ?this') ?k = Some (nextSet st)"
    by (simp del: map_of_append add: map_of_append_fresh)
  have r: "remove' guidFor tgt m (add guidFor tgt m (this, st)) =
        (True, this\<lparr>membersCacheIsValid := False\<rparr>, ?st2)"
    unfolding add_None[OF None] remove_Some[OF look]
    by (simp add: delete_append_fresh[OF nk])
  from inv have all: "list_all (entryOk guidFor st) (props this)" by (simp add: invar_def)
  have "mappingPairs ?st2 (props this) = mappingPairs st (props this)"
  proof (rule mappingPairs_cong)
    fix a assume "a \<in> snd ` set (props this)"
    then have "a < nextSet st" by (rule entries_below[OF all])
    then show "sets ?st2 a = sets st a" by simp
  qed
  then have "membersOf (this\<lparr>membersCacheIsValid := False\<rparr>, ?st2) = membersOf (this, st)"
    unfolding membersOf_invar[OF inv] by (simp add: membersOf_eq)
  then show ?thesis unfolding r by simp
next
  case (Some a)
  let ?k = "targetGuid guidFor tgt"
  let ?this' = "this\<lparr>membersCacheIsValid := False\<rparr>"
  let ?st' = "st\<lparr>sets := (sets st)(a := Set_add m (sets st a))\<rparr>"
  from inv have all: "list_all (entryOk guidFor st) (props this)" by (simp add: invar_def)
  have mem: "(?k, a) \<in> set (props this)" using Some by (rule map_of_SomeD)
  from entryOk_D[OF all mem] have ne: "items (sets st a) \<noteq> []" by simp
  from absent Some have nm: "m \<notin> set (items (sets st a))" by (simp add: handlersOf_def)
  have look: "map_of (props ?this') ?k = Some a" using Some by simp
  have rt: "Set_remove m (Set_add m (sets st a)) = sets st a"
    using nm by (simp add: Set_remove_def Set_add_def)
  have "removeAll m (items (sets ?st' a)) = items (sets st a)"
    using nm by (simp add: Set_add_def)
  then have r: "remove' guidFor tgt m (add guidFor tgt m (this, st)) = (True, ?this', st)"
    unfolding add_Some[OF Some] remove_Some[OF look] using ne rt by simp
  have "membersOf (?this', st) = membersOf (this, st)"
    unfolding membersOf_invar[OF inv] by (simp add: membersOf_eq)
  then show ?thesis unfolding r by simp
qed

text \<open>
  C7. Round trip: when the method is not among those stored for the key of the
  target, \<open>add\<close> and then \<open>remove\<close> of that target and method has \<open>remove\<close> return \<open>YES\<close>
  and leaves the members and \<open>targets\<close> what they were before the \<open>add\<close>. (All falsy
  targets have one key, so for them "stored" means stored under any of them.)
\<close>

theorem add_then_remove:
  assumes "invar guidFor s" and "m \<notin> handlersOf guidFor tgt s"
  shows "fst (remove' guidFor tgt m (add guidFor tgt m s)) = True \<and>
         membersOf (snd (remove' guidFor tgt m (add guidFor tgt m s))) = membersOf s \<and>
         targets (fst (snd (remove' guidFor tgt m (add guidFor tgt m s)))) = targets (fst s)"
proof (cases s)
  case (Pair this st)
  from add_then_remove_aux[of guidFor this st m tgt] assms Pair
  have "remove' guidFor tgt m (add guidFor tgt m s) =
           (True, snd (remove' guidFor tgt m (add guidFor tgt m s)))"
    and "membersOf (snd (remove' guidFor tgt m (add guidFor tgt m s))) = membersOf s"
    and "targets (fst (snd (remove' guidFor tgt m (add guidFor tgt m s)))) = targets this"
    by simp_all
  then show ?thesis using Pair by (metis fst_conv)
qed

text \<open>For instance, the method 2 on a target that has the method 1:\<close>

theorem add_then_remove_witness:
  "invar guidEx (run guidEx [Add (Obj 1) 1] (create, emptyStore)) \<and>
   2 \<notin> handlersOf guidEx (Obj 1) (run guidEx [Add (Obj 1) 1] (create, emptyStore)) \<and>
   fst (remove' guidEx (Obj 1) 2 (add guidEx (Obj 1) 2 (run guidEx [Add (Obj 1) 1] (create, emptyStore)))) = True \<and>
   membersOf (snd (remove' guidEx (Obj 1) 2 (add guidEx (Obj 1) 2 (run guidEx [Add (Obj 1) 1] (create, emptyStore)))))
     = membersOf (run guidEx [Add (Obj 1) 1] (create, emptyStore)) \<and>
   targets (fst (snd (remove' guidEx (Obj 1) 2 (add guidEx (Obj 1) 2 (run guidEx [Add (Obj 1) 1] (create, emptyStore))))))
     = targets (fst (run guidEx [Add (Obj 1) 1] (create, emptyStore)))"
proof -
  have h1: "invar guidEx (run guidEx [Add (Obj 1) 1] (create, emptyStore))"
    by (simp add: ev invar_def entryOk_def mappingPairs_def entryPairs_def)
  have h2: "2 \<notin> handlersOf guidEx (Obj 1) (run guidEx [Add (Obj 1) 1] (create, emptyStore))"
    by (simp add: ev handlersOf_def)
  from add_then_remove[OF h1 h2] h1 h2 show ?thesis by blast
qed

section \<open>The array that getMembers returns\<close>

text \<open>
  C2 as stated: a sequence that \<open>getMembers\<close> returned is never changed by a later
  \<open>add\<close>, \<open>remove\<close> or \<open>getMembers\<close>. It fails. The first \<open>getMembers\<close> below returns the
  array at address 0 with the pair of method 1; after \<open>add\<close> of method 2 the next
  \<open>getMembers\<close> returns the same array, now holding two pairs: the caller that kept the
  first result sees it change.
\<close>

theorem held_members_rewritten:
  "arrays (snd (run guidEx [Add (Obj 1) 1, GetMembers, Add (Obj 1) 2, GetMembers] (create, emptyStore))) 0 \<noteq>
     arrays (snd (run guidEx [Add (Obj 1) 1, GetMembers] (create, emptyStore))) 0 \<and>
   fst (getMembers (run guidEx [Add (Obj 1) 1] (create, emptyStore))) = Some 0 \<and>
   arrays (snd (run guidEx [Add (Obj 1) 1, GetMembers] (create, emptyStore))) 0 = [(Obj 1, 1)] \<and>
   arrays (snd (run guidEx [Add (Obj 1) 1, GetMembers, Add (Obj 1) 2] (create, emptyStore))) 0 = [(Obj 1, 1)] \<and>
   fst (getMembers (run guidEx [Add (Obj 1) 1, GetMembers, Add (Obj 1) 2] (create, emptyStore))) = Some 0 \<and>
   arrays (snd (run guidEx [Add (Obj 1) 1, GetMembers, Add (Obj 1) 2, GetMembers] (create, emptyStore))) 0
     = [(Obj 1, 2), (Obj 1, 1)]"
  by (simp add: ev)

lemma add_arrays: "arrays (snd (add g t m s)) = arrays (snd s)"
  by (cases s) (simp add: add_def Let_def split: option.splits)

lemma remove_arrays: "arrays (snd (snd (remove' g t m s))) = arrays (snd s)"
  by (cases s) (simp add: remove'_def Let_def split: option.splits)

text \<open>
  C2, amended. \<open>add\<close> and \<open>remove\<close> change no array, so a sequence that \<open>getMembers\<close>
  returned is as it was after them. \<open>getMembers\<close> with a valid cache changes nothing and
  returns the stored array. Once \<open>_members\<close> is set, every \<open>getMembers\<close> returns that
  one array and leaves all the others alone; when it rebuilds, it has emptied that
  array and filled it with the pairs of the mapping. Only the first rebuild, with
  \<open>_members\<close> still absent, makes a new array, and it too leaves the others alone.
\<close>

theorem held_members_frame:
  "arrays (snd (add guidFor tgt m s)) = arrays (snd s) \<and>
   arrays (snd (snd (remove' guidFor tgt m s))) = arrays (snd s) \<and>
   (membersCacheIsValid (fst s) \<longrightarrow> getMembers s = (members (fst s), s)) \<and>
   (members (fst s) = Some r \<longrightarrow>
      fst (getMembers s) = Some r \<and> members (fst (snd (getMembers s))) = Some r \<and>
      (\<forall>r'. r' \<noteq> r \<longrightarrow> arrays (snd (snd (getMembers s))) r' = arrays (snd s) r') \<and>
      (\<not> membersCacheIsValid (fst s) \<longrightarrow>
         arrays (snd (snd (getMembers s))) r = mappingPairs (snd s) (props (fst s)))) \<and>
   (members (fst s) = None \<and> \<not> membersCacheIsValid (fst s) \<longrightarrow>
      fst (getMembers s) = Some (nextArr (snd s)) \<and>
      (\<forall>r'. r' \<noteq> nextArr (snd s) \<longrightarrow> arrays (snd (snd (getMembers s))) r' = arrays (snd s) r'))"
proof (cases s)
  case (Pair this st)
  have 3: "members this = None \<and> \<not> membersCacheIsValid this \<longrightarrow>
      fst (getMembers (this, st)) = Some (nextArr st) \<and>
      (\<forall>r'. r' \<noteq> nextArr st \<longrightarrow> arrays (snd (snd (getMembers (this, st)))) r' = arrays st r')"
    by (simp add: getMembers_None)
  have 1: "membersCacheIsValid this \<longrightarrow> getMembers (this, st) = (members this, this, st)"
    by (simp add: getMembers_valid)
  have 2: "members this = Some r \<longrightarrow>
      fst (getMembers (this, st)) = Some r \<and> members (fst (snd (getMembers (this, st)))) = Some r \<and>
      (\<forall>r'. r' \<noteq> r \<longrightarrow> arrays (snd (snd (getMembers (this, st)))) r' = arrays st r') \<and>
      (\<not> membersCacheIsValid this \<longrightarrow>
         arrays (snd (snd (getMembers (this, st)))) r = mappingPairs st (props this))"
    by (cases "membersCacheIsValid this") (simp_all add: getMembers_valid getMembers_Some)
  show ?thesis
    using 1 2 3 unfolding Pair by (simp add: add_arrays remove_arrays)
qed

theorem held_members_frame_witness:
  "membersCacheIsValid (fst (run guidEx [Add (Obj 1) 1, GetMembers] (create, emptyStore))) \<and>
   getMembers (run guidEx [Add (Obj 1) 1, GetMembers] (create, emptyStore)) =
     (Some 0, run guidEx [Add (Obj 1) 1, GetMembers] (create, emptyStore)) \<and>
   members (fst (run guidEx [Add (Obj 1) 1, GetMembers, Add (Obj 1) 2] (create, emptyStore))) = Some 0 \<and>
   \<not> membersCacheIsValid (fst (run guidEx [Add (Obj 1) 1, GetMembers, Add (Obj 1) 2] (create, emptyStore))) \<and>
   fst (getMembers (run guidEx [Add (Obj 1) 1, GetMembers, Add (Obj 1) 2] (create, emptyStore))) = Some 0 \<and>
   arrays (snd (snd (getMembers (run guidEx [Add (Obj 1) 1, GetMembers, Add (Obj 1) 2] (create, emptyStore))))) 0 =
     mappingPairs (snd (run guidEx [Add (Obj 1) 1, GetMembers, Add (Obj 1) 2] (create, emptyStore)))
       (props (fst (run guidEx [Add (Obj 1) 1, GetMembers, Add (Obj 1) 2] (create, emptyStore)))) \<and>
   members (fst (run guidEx [Add (Obj 1) 1] (create, emptyStore))) = None \<and>
   \<not> membersCacheIsValid (fst (run guidEx [Add (Obj 1) 1] (create, emptyStore))) \<and>
   fst (getMembers (run guidEx [Add (Obj 1) 1] (create, emptyStore))) =
     Some (nextArr (snd (run guidEx [Add (Obj 1) 1] (create, emptyStore))))"
proof -
  have v: "membersCacheIsValid (fst (run guidEx [Add (Obj 1) 1, GetMembers] (create, emptyStore)))"
    and m: "members (fst (run guidEx [Add (Obj 1) 1, GetMembers] (create, emptyStore))) = Some 0"
    by (simp_all add: ev)
  have v2: "\<not> membersCacheIsValid (fst (run guidEx [Add (Obj 1) 1, GetMembers, Add (Obj 1) 2] (create, emptyStore)))"
    and m2: "members (fst (run guidEx [Add (Obj 1) 1, GetMembers, Add (Obj 1) 2] (create, emptyStore))) = Some 0"
    by (simp_all add: ev)
  have v3: "\<not> membersCacheIsValid (fst (run guidEx [Add (Obj 1) 1] (create, emptyStore)))"
    and m3: "members (fst (run guidEx [Add (Obj 1) 1] (create, emptyStore))) = None"
    by (simp_all add: ev)
  from held_members_frame[of guidEx Undefined 0 "run guidEx [Add (Obj 1) 1, GetMembers] (create, emptyStore)" 0]
    held_members_frame[of guidEx Undefined 0 "run guidEx [Add (Obj 1) 1, GetMembers, Add (Obj 1) 2] (create, emptyStore)" 0]
    held_members_frame[of guidEx Undefined 0 "run guidEx [Add (Obj 1) 1] (create, emptyStore)" 0]
    v m v2 m2 v3 m3
  show ?thesis by simp
qed

lemma mappingPairs_append:
  "mappingPairs st (ps @ qs) = mappingPairs st ps @ mappingPairs st qs"
  by (simp add: mappingPairs_def)

lemma falsy_key: "\<not> truthy t \<Longrightarrow> targetGuid g t = ''__this__''"
  by (simp add: targetGuid_def)

lemma falsy_bucket_aux:
  assumes inv: "invar g (this, st)"
    and f1: "\<not> truthy t1" and f2: "\<not> truthy t2"
    and none: "map_of (props this) ''__this__'' = None"
  shows "add g t2 m2 (add g t1 m1 (this, st)) =
      (this\<lparr>props := props this @ [(''__this__'', nextSet st)], targets := targets this + 1,
            membersCacheIsValid := False\<rparr>,
       st\<lparr>sets := (sets st)(nextSet st :=
             Set_add m2 \<lparr>items = [m1], target = t1, isTargetSet = True\<rparr>),
          nextSet := Suc (nextSet st)\<rparr>)"
proof -
  let ?this' = "this\<lparr>props := props this @ [(''__this__'', nextSet st)], targets := targets this + 1,
            membersCacheIsValid := False\<rparr>"
  let ?st' = "st\<lparr>sets := (sets st)(nextSet st := \<lparr>items = [m1], target = t1, isTargetSet = True\<rparr>),
         nextSet := Suc (nextSet st)\<rparr>"
  from none have n1: "map_of (props this) (targetGuid g t1) = None"
    by (simp add: falsy_key[OF f1])
  have "''__this__'' \<notin> fst ` set (props this)"
    using none by (simp add: map_of_eq_None_iff)
  then have "map_of (props ?this') ''__this__'' = Some (nextSet st)"
    by (simp del: map_of_append add: map_of_append_fresh)
  then have s2: "map_of (props ?this') (targetGuid g t2) = Some (nextSet st)"
    by (simp add: falsy_key[OF f2])
  show ?thesis
    unfolding add_None[OF n1] falsy_key[OF f1] add_Some[OF s2] by simp
qed

section \<open>Targets that are falsy\<close>

text \<open>
  C8. Every falsy target has the key \<open>__this__\<close>, and no truthy target has it as long
  as \<open>guidFor\<close> never returns that string. When the key has no set yet and methods are
  added under two falsy targets, the set stored under the key keeps the first of
  them as its \<open>target\<close>, holds both methods, and \<open>getMembers\<close> reports both methods
  with the first target and reports no other falsy target.
\<close>

theorem falsy_targets_one_bucket:
  assumes inv: "invar guidFor s"
    and f1: "\<not> truthy t1" and f2: "\<not> truthy t2"
    and none: "map_of (props (fst s)) ''__this__'' = None"
    and contract: "\<And>v. truthy v \<Longrightarrow> guidFor v \<noteq> ''__this__''"
  shows "targetGuid guidFor t1 = ''__this__'' \<and> targetGuid guidFor t2 = ''__this__'' \<and>
         (\<forall>v. truthy v \<longrightarrow> targetGuid guidFor v \<noteq> ''__this__'') \<and>
         (\<exists>a. map_of (props (fst (add guidFor t2 m2 (add guidFor t1 m1 s)))) ''__this__'' = Some a \<and>
              target (sets (snd (add guidFor t2 m2 (add guidFor t1 m1 s))) a) = t1 \<and>
              set (items (sets (snd (add guidFor t2 m2 (add guidFor t1 m1 s))) a)) = {m1, m2}) \<and>
         (t1, m1) \<in> set (membersOf (add guidFor t2 m2 (add guidFor t1 m1 s))) \<and>
         (t1, m2) \<in> set (membersOf (add guidFor t2 m2 (add guidFor t1 m1 s))) \<and>
         (\<forall>(t, m) \<in> set (membersOf (add guidFor t2 m2 (add guidFor t1 m1 s))). \<not> truthy t \<longrightarrow> t = t1)"
proof (cases s)
  case (Pair this st)
  let ?new = "Set_add m2 \<lparr>items = [m1], target = t1, isTargetSet = True\<rparr>"
  let ?this' = "this\<lparr>props := props this @ [(''__this__'', nextSet st)], targets := targets this + 1,
            membersCacheIsValid := False\<rparr>"
  let ?st' = "st\<lparr>sets := (sets st)(nextSet st := ?new), nextSet := Suc (nextSet st)\<rparr>"
  from inv Pair have inv': "invar guidFor (this, st)" by simp
  from none Pair have none': "map_of (props this) ''__this__'' = None" by simp
  have eq: "add guidFor t2 m2 (add guidFor t1 m1 s) = (?this', ?st')"
    unfolding Pair by (rule falsy_bucket_aux[OF inv' f1 f2 none'])
  from inv' have all: "list_all (entryOk guidFor st) (props this)" by (simp add: invar_def)
  have nk: "''__this__'' \<notin> fst ` set (props this)"
    using none' by (simp add: map_of_eq_None_iff)
  have look: "map_of (props ?this') ''__this__'' = Some (nextSet st)"
    using nk by (simp del: map_of_append add: map_of_append_fresh)
  have new: "target ?new = t1" "set (items ?new) = {m1, m2}" "isTargetSet ?new"
    by (auto simp: Set_add_def)
  have old: "mappingPairs ?st' (props this) = mappingPairs st (props this)"
  proof (rule mappingPairs_cong)
    fix a assume "a \<in> snd ` set (props this)"
    then have "a < nextSet st" by (rule entries_below[OF all])
    then show "sets ?st' a = sets st a" by simp
  qed
  have mem: "membersOf (?this', ?st') = mappingPairs st (props this) @ entryPairs ?new"
    by (simp add: membersOf_eq mappingPairs_append old) (simp add: mappingPairs_def)
  have pairs: "set (entryPairs ?new) = {(t1, m1), (t1, m2)}"
    using new by (auto simp: entryPairs_def)
  have others: "truthy t" if "(t, m) \<in> set (mappingPairs st (props this))" for t m
  proof -
    from that have "t \<in> fst ` set (mappingPairs st (props this))" by force
    then obtain k a where in_ps: "(k, a) \<in> set (props this)" and t: "t = target (sets st a)"
      unfolding fst_mappingPairs[OF all] by auto
    from entryOk_D[OF all in_ps] have "k = targetGuid guidFor t" using t by simp
    moreover from in_ps nk have "k \<noteq> ''__this__''" by force
    ultimately show ?thesis using falsy_key[of t guidFor] by blast
  qed
  have a: "targetGuid guidFor t1 = ''__this__'' \<and> targetGuid guidFor t2 = ''__this__''"
    using f1 f2 by (simp add: falsy_key)
  have b: "\<forall>v. truthy v \<longrightarrow> targetGuid guidFor v \<noteq> ''__this__''"
    using contract by (simp add: targetGuid_def)
  have c: "\<exists>a. map_of (props ?this') ''__this__'' = Some a \<and> target (sets ?st' a) = t1 \<and>
               set (items (sets ?st' a)) = {m1, m2}"
    using look new by simp
  have d: "(t1, m1) \<in> set (membersOf (?this', ?st')) \<and> (t1, m2) \<in> set (membersOf (?this', ?st'))"
    unfolding mem using pairs by simp
  have e: "\<forall>(t, m) \<in> set (membersOf (?this', ?st')). \<not> truthy t \<longrightarrow> t = t1"
    unfolding mem using pairs others by auto
  show ?thesis unfolding eq using a b c d e by simp
qed

lemma guidEx_contract: "guidEx v \<noteq> ''__this__''"
  by (cases v) simp_all

theorem falsy_targets_one_bucket_witness:
  "invar guidEx (run guidEx [Add (Obj 1) 1] (create, emptyStore)) \<and>
   \<not> truthy Undefined \<and> \<not> truthy Null \<and>
   map_of (props (fst (run guidEx [Add (Obj 1) 1] (create, emptyStore)))) ''__this__'' = None \<and>
   targetGuid guidEx Undefined = ''__this__'' \<and> targetGuid guidEx Null = ''__this__'' \<and>
   (Undefined, 2) \<in> set (membersOf (add guidEx Null 3 (add guidEx Undefined 2
        (run guidEx [Add (Obj 1) 1] (create, emptyStore))))) \<and>
   (Undefined, 3) \<in> set (membersOf (add guidEx Null 3 (add guidEx Undefined 2
        (run guidEx [Add (Obj 1) 1] (create, emptyStore))))) \<and>
   membersOf (run guidEx [Add (Obj 1) 1, Add Undefined 2, Add Null 3] (create, emptyStore)) =
     [(Obj 1, 1), (Undefined, 3), (Undefined, 2)]"
proof -
  have h1: "invar guidEx (run guidEx [Add (Obj 1) 1] (create, emptyStore))"
    by (simp add: ev invar_def entryOk_def mappingPairs_def entryPairs_def)
  have h2: "\<not> truthy Undefined" and h3: "\<not> truthy Null" by simp_all
  have h4: "map_of (props (fst (run guidEx [Add (Obj 1) 1] (create, emptyStore)))) ''__this__'' = None"
    by (simp add: ev)
  have h5: "\<And>v. truthy v \<Longrightarrow> guidEx v \<noteq> ''__this__''" by (rule guidEx_contract)
  have v: "membersOf (run guidEx [Add (Obj 1) 1, Add Undefined 2, Add Null 3] (create, emptyStore)) =
     [(Obj 1, 1), (Undefined, 3), (Undefined, 2)]"
    by (simp add: ev)
  from falsy_targets_one_bucket[OF h1 h2 h3 h4 h5, of 3 2] h1 h4 v
  show ?thesis by simp
qed

section \<open>Cloning\<close>

lemma cloneProps_spec:
  assumes "list_all (entryOk g st) ps" and "distinct (map fst ps)"
    and "fst ` set ps \<inter> fst ` set (props ret) = {}"
  shows "\<exists>new st'. cloneProps ps (ret, st) = (ret\<lparr>props := props ret @ new\<rparr>, st') \<and>
           list_all2 (copyOf st st') ps new \<and>
           distinct (map snd new) \<and>
           (\<forall>b \<in> snd ` set new. nextSet st \<le> b \<and> b < nextSet st') \<and>
           nextSet st \<le> nextSet st' \<and>
           (\<forall>x < nextSet st. sets st' x = sets st x) \<and>
           arrays st' = arrays st \<and> nextArr st' = nextArr st"
  using assms
proof (induction ps arbitrary: ret st)
  case Nil
  then show ?case by simp
next
  case (Cons p rest)
  obtain k a where p: "p = (k, a)" by (cases p)
  let ?b = "nextSet st"
  let ?new = "(Set_clone (sets st a))\<lparr>target := target (sets st a)\<rparr>"
  let ?ret1 = "ret\<lparr>props := props ret @ [(k, ?b)]\<rparr>"
  let ?st1 = "st\<lparr>sets := (sets st)(?b := ?new), nextSet := Suc ?b\<rparr>"
  from Cons.prems p have ok: "entryOk g st (k, a)" and all: "list_all (entryOk g st) rest"
    and dk: "distinct (map fst rest)" and knew: "k \<notin> fst ` set rest"
    and kret: "k \<notin> fst ` set (props ret)"
    and disj: "fst ` set rest \<inter> fst ` set (props ret) = {}"
    by auto
  from ok have flag: "isTargetSet (sets st a)" and below: "a < ?b" by (simp_all add: entryOk_def)
  have unf: "cloneProps (p # rest) (ret, st) = cloneProps rest (?ret1, ?st1)"
    using flag kret by (simp add: p Let_def update_fresh)
  have all1: "list_all (entryOk g ?st1) rest"
  proof (rule list_all_entryOk_frame[OF all])
    fix x assume "x \<in> snd ` set rest"
    then have "x < ?b" by (rule entries_below[OF all])
    then show "sets ?st1 x = sets st x" by simp
  qed simp
  have disj1: "fst ` set rest \<inter> fst ` set (props ?ret1) = {}"
    using disj knew by auto
  from Cons.IH[OF all1 dk disj1] obtain new' st' where
    run: "cloneProps rest (?ret1, ?st1) = (?ret1\<lparr>props := props ?ret1 @ new'\<rparr>, st')"
    and rel: "list_all2 (copyOf ?st1 st') rest new'"
    and dist: "distinct (map snd new')"
    and addrs: "\<forall>b \<in> snd ` set new'. nextSet ?st1 \<le> b \<and> b < nextSet st'"
    and nxt: "nextSet ?st1 \<le> nextSet st'"
    and old: "\<forall>x < nextSet ?st1. sets st' x = sets ?st1 x"
    and arr: "arrays st' = arrays ?st1" "nextArr st' = nextArr ?st1"
    by blast
  have rel': "list_all2 (copyOf st st') rest new'"
  proof (rule list.rel_mono_strong[OF rel])
    fix x y
    assume x: "x \<in> set rest" and h: "copyOf ?st1 st' x y"
    obtain kx ax where xe: "x = (kx, ax)" by (cases x)
    from x xe have "ax \<in> snd ` set rest" by force
    then have "ax < ?b" by (rule entries_below[OF all])
    then have "sets ?st1 ax = sets st ax" by simp
    with h xe show "copyOf st st' x y" by (cases y) (simp add: copyOf_def)
  qed
  have head: "sets st' ?b = ?new" using old by simp
  have 1: "cloneProps (p # rest) (ret, st) = (ret\<lparr>props := props ret @ ((k, ?b) # new')\<rparr>, st')"
    unfolding unf run by simp
  have 2: "list_all2 (copyOf st st')
            (p # rest) ((k, ?b) # new')"
    using rel' head p by (simp add: copyOf_def)
  have 3: "distinct (map snd ((k, ?b) # new'))"
    using dist addrs by auto
  have 4: "(\<forall>b \<in> snd ` set ((k, ?b) # new'). ?b \<le> b \<and> b < nextSet st') \<and> ?b \<le> nextSet st'"
    using addrs nxt by auto
  have 5: "\<forall>x < ?b. sets st' x = sets st x" using old by simp
  have 6: "arrays st' = arrays st \<and> nextArr st' = nextArr st" using arr by simp
  from 1 2 3 4 5 6 show ?case by blast
qed

lemma copies_keys: "list_all2 (copyOf st st') ps new \<Longrightarrow> map fst new = map fst ps"
  by (induction rule: list_all2_induct) (auto simp: copyOf_def)

lemma copies_unmarked:
  "list_all2 (copyOf st st') ps new \<Longrightarrow> mappingPairs st' new = []"
  by (induction rule: list_all2_induct)
     (auto simp: copyOf_def mappingPairs_def entryPairs_def Set_clone_def Set_create_def)

lemma clone_unfold:
  "clone (this, st) =
     ((fst (cloneProps (props this) (create, st)))
        \<lparr>targets := targets this, membersCacheIsValid := False\<rparr>,
      snd (cloneProps (props this) (create, st)))"
  by (simp add: clone_def case_prod_unfold Let_def)

lemma clone_spec:
  assumes inv: "invar g (a, st)"
  shows "\<exists>new st1. clone (a, st) =
            (\<lparr>targets = targets a, membersCacheIsValid = False, members = None, props = new\<rparr>, st1) \<and>
          list_all2 (copyOf st st1) (props a) new \<and>
          distinct (map snd new) \<and>
          (\<forall>b \<in> snd ` set new. nextSet st \<le> b \<and> b < nextSet st1) \<and>
          nextSet st \<le> nextSet st1 \<and>
          (\<forall>x < nextSet st. sets st1 x = sets st x) \<and>
          arrays st1 = arrays st \<and> nextArr st1 = nextArr st"
proof -
  from inv have all: "list_all (entryOk g st) (props a)" and dk: "distinct (map fst (props a))"
    by (simp_all add: invar_def)
  have "fst ` set (props a) \<inter> fst ` set (props create) = {}" by (simp add: create_def)
  from cloneProps_spec[OF all dk this] obtain new st1 where
    run: "cloneProps (props a) (create, st) = (create\<lparr>props := props create @ new\<rparr>, st1)"
    and rest: "list_all2 (copyOf st st1) (props a) new" "distinct (map snd new)"
      "\<forall>b \<in> snd ` set new. nextSet st \<le> b \<and> b < nextSet st1" "nextSet st \<le> nextSet st1"
      "\<forall>x < nextSet st. sets st1 x = sets st x" "arrays st1 = arrays st" "nextArr st1 = nextArr st"
    by blast
  have "clone (a, st) =
      (\<lparr>targets = targets a, membersCacheIsValid = False, members = None, props = new\<rparr>, st1)"
    unfolding clone_unfold run by (simp add: create_def)
  with rest show ?thesis by blast
qed

lemma invar_frame:
  assumes inv: "invar g (b, st)"
    and sets_same: "\<And>x. x \<in> snd ` set (props b) \<Longrightarrow> sets st' x = sets st x"
    and arr_same: "\<And>r. members b = Some r \<Longrightarrow> arrays st' r = arrays st r"
    and nxt: "nextSet st \<le> nextSet st'" "nextArr st \<le> nextArr st'"
  shows "invar g (b, st') \<and> mappingPairs st' (props b) = mappingPairs st (props b) \<and>
         membersOf (b, st') = membersOf (b, st)"
proof -
  from inv have all: "list_all (entryOk g st) (props b)" by (simp add: invar_def)
  have all': "list_all (entryOk g st') (props b)"
    using all sets_same nxt(1) by (rule list_all_entryOk_frame)
  have mp: "mappingPairs st' (props b) = mappingPairs st (props b)"
    using sets_same by (rule mappingPairs_cong)
  have inv': "invar g (b, st')"
  proof (cases "members b")
    case None
    then show ?thesis using inv all' by (simp add: invar_def)
  next
    case (Some r)
    with inv have "r < nextArr st" by (simp add: invar_def)
    with nxt(2) have "r < nextArr st'" by simp
    then show ?thesis using inv all' mp arr_same[OF Some] Some by (simp add: invar_def)
  qed
  show ?thesis
    using inv' mp unfolding membersOf_invar[OF inv'] membersOf_invar[OF inv] by simp
qed

text \<open>
  What \<open>clone\<close> gives for an observer set that is in order: the original is as it was,
  the clone has its \<open>targets\<close> and an invalid cache, but none of the new sets is
  marked, so \<open>getMembers\<close> on the clone finds no pair.
\<close>

lemma clone_unmarked:
  assumes inv: "invar g s"
  shows "membersOf (clone s) = [] \<and> targets (fst (clone s)) = targets (fst s) \<and>
         \<not> membersCacheIsValid (fst (clone s)) \<and>
         membersOf (fst s, snd (clone s)) = membersOf s"
proof (cases s)
  case (Pair a st)
  from inv Pair have inv': "invar g (a, st)" by simp
  from clone_spec[OF inv'] obtain new st1 where
    c: "clone (a, st) =
          (\<lparr>targets = targets a, membersCacheIsValid = False, members = None, props = new\<rparr>, st1)"
    and rel: "list_all2 (copyOf st st1) (props a) new"
    and n1: "nextSet st \<le> nextSet st1"
    and old: "\<forall>x < nextSet st. sets st1 x = sets st x"
    and arr: "arrays st1 = arrays st" "nextArr st1 = nextArr st"
    by blast
  from inv' have all: "list_all (entryOk g st) (props a)" by (simp add: invar_def)
  have "invar g (a, st1) \<and> mappingPairs st1 (props a) = mappingPairs st (props a) \<and>
         membersOf (a, st1) = membersOf (a, st)"
  proof (rule invar_frame[OF inv'])
    fix x assume "x \<in> snd ` set (props a)"
    then have "x < nextSet st" by (rule entries_below[OF all])
    with old show "sets st1 x = sets st x" by simp
  qed (simp_all add: arr n1)
  then show ?thesis
    unfolding Pair c by (simp add: membersOf_eq copies_unmarked[OF rel])
qed

text \<open>
  C5. \<open>add\<close> marks the set it creates with \<open>isTargetSet\<close> and \<open>getMembers\<close> and \<open>clone\<close>
  pass over every set without the mark; \<open>clone\<close> gives the new set its \<open>target\<close> but not
  the mark. Here two targets are added and the observer set is cloned: the original
  reports both pairs, the clone has \<open>targets\<close> 2 and reports no pair at all, and a
  method added to the clone under a target it already has does not show up either.
\<close>

theorem clone_reports_no_members:
  "membersOf (run guidEx [Add (Obj 1) 1, Add (Obj 2) 3] (create, emptyStore)) =
     [(Obj 1, 1), (Obj 2, 3)] \<and>
   membersOf (clone (run guidEx [Add (Obj 1) 1, Add (Obj 2) 3] (create, emptyStore))) = [] \<and>
   targets (fst (clone (run guidEx [Add (Obj 1) 1, Add (Obj 2) 3] (create, emptyStore)))) = 2 \<and>
   membersOf (add guidEx (Obj 1) 5
      (clone (run guidEx [Add (Obj 1) 1, Add (Obj 2) 3] (create, emptyStore)))) = []"
  by (simp add: ev clone_def Set_clone_def)

section \<open>String formatting: fmt\<close>

lemma digitVal_nonneg: "isDigit c \<Longrightarrow> 0 \<le> digitVal c"
  by (auto simp: isDigit_def digitVal_def)

lemma foldl_digits_nonneg:
  "list_all isDigit ds \<Longrightarrow> 0 \<le> acc \<Longrightarrow> 0 \<le> foldl (\<lambda>n c. 10 * n + digitVal c) acc ds"
proof (induction ds arbitrary: acc)
  case Nil
  then show ?case by simp
next
  case (Cons c ds)
  then have "0 \<le> 10 * acc + digitVal c" using digitVal_nonneg[of c] by simp
  with Cons show ?case by simp
qed

lemma parseInt_nonneg: "list_all isDigit ds \<Longrightarrow> 0 \<le> parseInt ds"
  by (simp add: parseInt_def foldl_digits_nonneg)

lemma render_next: "render (argAt args (int used)) = shown (nthArg args (used + 1))"
  by (cases "args ! used") (auto simp: render_def argAt_def nthArg_def)

lemma render_numbered:
  "0 \<le> i \<Longrightarrow> render (argAt args (i - 1)) = shown (nthArg args (nat i))"
proof (cases "1 \<le> i \<and> i \<le> int (length args)")
  case True
  then have "nat (i - 1) = nat i - 1" by simp
  with True show ?thesis
    by (cases "args ! (nat i - 1)") (auto simp: render_def argAt_def nthArg_def)
next
  case False
  moreover assume "0 \<le> i"
  ultimately show ?thesis by (auto simp: render_def argAt_def nthArg_def)
qed

lemma fmtFrom_format: "fmtFrom (int used) args s = formatSpec used args (tokens s)"
proof (induction s arbitrary: used rule: tokens.induct)
  case 1
  then show ?case by simp
next
  case (2 c)
  then show ?case by simp
next
  case (3 c d cs)
  show ?case
  proof (cases "c = CHR ''%'' \<and> d = CHR ''@''")
    case False
    with 3(2)[of used] show ?thesis by auto
  next
    case True
    note tok = True
    show ?thesis
    proof (cases "takeWhile isDigit cs = []")
      case True
      have "fmtFrom (int used + 1) args (dropWhile isDigit cs) =
            formatSpec (used + 1) args (tokens (dropWhile isDigit cs))"
        using 3(1)[OF tok, of "used + 1"] by (simp add: add.commute)
      with tok True show ?thesis
        by (simp add: render_next)
    next
      case False
      have "list_all isDigit (takeWhile isDigit cs)"
        by (simp add: list_all_iff) (metis set_takeWhileD)
      then have "0 \<le> parseInt (takeWhile isDigit cs)" by (rule parseInt_nonneg)
      from render_numbered[OF this, of args] 3(1)[OF tok, of used] tok False show ?thesis
        by simp
    qed
  qed
qed

text \<open>
  C9. \<open>fmt\<close> does what the spec says of \<open>format\<close>: each \<open>%@\<close> token is replaced by the
  next positional argument, each \<open>%@N\<close> token by the \<open>N\<close>-th argument counted from 1, a
  missing argument gives the empty string and \<open>null\<close> gives \<open>(null)\<close>.
\<close>

theorem fmt_refines_format: "fmt this args = formatSpec 0 args (tokens this)"
  using fmtFrom_format[of 0 args this] by (simp add: fmt_def)

text \<open>For instance, with a second argument that is \<open>null\<close> and no ninth argument:\<close>

theorem fmt_refines_format_witness:
  "fmt ''Hello %@2, %@1 and %@ %@ %@9.'' [ArgValue ''John'', ArgNull]
     = ''Hello (null), John and John (null) .''"
  unfolding fmt_refines_format
  by (simp add: nthArg_def isDigit_def parseInt_def digitVal_def)

lemma takeWhile_digits:
  "list_all isDigit ds \<Longrightarrow> rest = [] \<or> \<not> isDigit (hd rest) \<Longrightarrow>
   takeWhile isDigit (ds @ rest) = ds \<and> dropWhile isDigit (ds @ rest) = rest"
  by (cases rest) (auto simp: list_all_iff takeWhile_append2 dropWhile_append2)

text \<open>
  C10. The counter behind the \<open>%@\<close> tokens moves only at a \<open>%@\<close> token: after a
  numbered token the rest of the template is formatted with the counter as it was,
  after an un-numbered one with the counter advanced by one, and a plain character
  leaves it alone. So \<open>%@2 %@\<close> with the arguments \<open>a\<close>, \<open>b\<close> gives \<open>b a\<close>.
\<close>

theorem fmt_counter:
  "(ds \<noteq> [] \<and> list_all isDigit ds \<and> (rest = [] \<or> \<not> isDigit (hd rest)) \<longrightarrow>
      fmtFrom idx args (''%@'' @ ds @ rest) =
        render (argAt args (parseInt ds - 1)) @ fmtFrom idx args rest) \<and>
   (rest = [] \<or> \<not> isDigit (hd rest) \<longrightarrow>
      fmtFrom idx args (''%@'' @ rest) = render (argAt args idx) @ fmtFrom (idx + 1) args rest) \<and>
   (\<not> (c = CHR ''%'' \<and> rest \<noteq> [] \<and> hd rest = CHR ''@'') \<longrightarrow>
      fmtFrom idx args (c # rest) = c # fmtFrom idx args rest) \<and>
   fmt ''%@2 %@'' [ArgValue a, ArgValue b] = b @ '' '' @ a"
proof -
  have 1: "fmtFrom idx args (''%@'' @ ds @ rest) =
        render (argAt args (parseInt ds - 1)) @ fmtFrom idx args rest"
    if "ds \<noteq> []" "list_all isDigit ds" "rest = [] \<or> \<not> isDigit (hd rest)"
    using that takeWhile_digits[of ds rest] by simp
  have 2: "fmtFrom idx args (''%@'' @ rest) = render (argAt args idx) @ fmtFrom (idx + 1) args rest"
    if "rest = [] \<or> \<not> isDigit (hd rest)"
    using that takeWhile_digits[of "[]" rest] by simp
  have 3: "fmtFrom idx args (c # rest) = c # fmtFrom idx args rest"
    if "\<not> (c = CHR ''%'' \<and> rest \<noteq> [] \<and> hd rest = CHR ''@'')"
    using that by (cases rest) auto
  have 4: "fmt ''%@2 %@'' [ArgValue a, ArgValue b] = b @ '' '' @ a"
    by (simp add: fmt_def isDigit_def parseInt_def digitVal_def argAt_def render_def)
  from 1 2 3 4 show ?thesis by blast
qed

theorem fmt_counter_witness:
  "''2'' \<noteq> [] \<and> list_all isDigit ''2'' \<and> \<not> isDigit (hd '' %@'') \<and>
   fmtFrom 0 [ArgValue ''a'', ArgValue ''b''] (''%@'' @ ''2'' @ '' %@'') =
     ''b'' @ fmtFrom 0 [ArgValue ''a'', ArgValue ''b''] '' %@'' \<and>
   fmtFrom 0 [ArgValue ''a'', ArgValue ''b''] (''%@'' @ []) =
     ''a'' @ fmtFrom 1 [ArgValue ''a'', ArgValue ''b''] [] \<and>
   fmt ''%@2 %@'' [ArgValue ''a'', ArgValue ''b''] = ''b a''"
proof -
  have h: "''2'' \<noteq> [] \<and> list_all isDigit ''2'' \<and> ('' %@'' = [] \<or> \<not> isDigit (hd '' %@''))"
    by (simp add: isDigit_def)
  have r: "render (argAt [ArgValue ''a'', ArgValue ''b''] (parseInt ''2'' - 1)) = ''b''"
    "render (argAt [ArgValue ''a'', ArgValue ''b''] 0) = ''a''"
    by (simp_all add: parseInt_def digitVal_def argAt_def render_def)
  from fmt_counter[of "''2''" "'' %@''" 0 "[ArgValue ''a'', ArgValue ''b'']" "CHR ''x''" "''a''" "''b''"]
    fmt_counter[of "''2''" "[]" 0 "[ArgValue ''a'', ArgValue ''b'']" "CHR ''x''" "''a''" "''b''"]
    h r
  show ?thesis by simp
qed

end
